theory Spec2Isabelle
  imports Main "HOL-Library.Word" "HOL-Library.Multiset"
begin

section \<open>The array-backed binary heap of MaxHeap.cpp\<close>

text \<open>
  The class \<^verbatim>\<open>MinHeap<T>\<close> of \<^verbatim>\<open>src/MaxHeap.cpp\<close> keeps three fields: the array
  \<^verbatim>\<open>_cache\<close>, and the \<^verbatim>\<open>size_t\<close> counters \<^verbatim>\<open>_size\<close> and \<^verbatim>\<open>_capacity\<close>. The
  driver \<^verbatim>\<open>src/BinaryHeap.cpp\<close> instantiates it at \<^verbatim>\<open>T = int\<close>, which is also what
  the comparisons with the literal \<^verbatim>\<open>-1\<close> in \<^verbatim>\<open>PercolateDown\<close> assume.

  \<^item> \<^verbatim>\<open>size_t\<close> is a 64-bit word: \<open>+\<close>, \<open>-\<close>, \<open>*\<close> wrap, \<open>div\<close> and \<open><\<close> are unsigned.
  \<^item> \<^verbatim>\<open>int\<close> is a 32-bit word read through \<open>sint\<close> where the source compares.
  \<^item> A cell of the array is \<open>None\<close> until something is stored in it: \<^verbatim>\<open>new T[n]\<close>
    leaves an \<^verbatim>\<open>int\<close> array indeterminate. Loads and stores that only move a cell
    (\<^verbatim>\<open>swap\<close>, the copy loop) move it whatever it holds; an operation that needs the
    value (a comparison, printing) fails on an indeterminate cell.
  \<^item> Every access is bounds-checked against the array's length: where the C++ has
    undefined behaviour the model returns an \<open>error\<close>.
\<close>

type_synonym size_t = "64 word"
type_synonym elem = "32 word"
type_synonym cell = "elem option"

text \<open>
  The first four errors are the ways the source can go wrong. \<open>InvalidArgument\<close> and
  \<open>EmptyHeap\<close> are the error names of the specification; no path of the source
  produces them.
\<close>

datatype error =
    OutOfBounds
  | UninitRead
  | UseAfterFree
  | AllocationFailure
  | InvalidArgument
  | EmptyHeap

record heap =
  h_cache :: "cell list"
  h_size :: size_t
  h_capacity :: size_t

subsection \<open>Index arithmetic\<close>

definition GetParentNode :: "size_t \<Rightarrow> size_t" where
  "GetParentNode index = (index - 1) div 2"

definition GetLeftChildNode :: "size_t \<Rightarrow> size_t" where
  "GetLeftChildNode index = (2 * index) + 1"

definition GetRightChildNode :: "size_t \<Rightarrow> size_t" where
  "GetRightChildNode index = (2 * index) + 2"

subsection \<open>Array accesses\<close>

text \<open>\<^verbatim>\<open>_cache[i]\<close> as a cell that is moved.\<close>

definition cache_get :: "cell list \<Rightarrow> size_t \<Rightarrow> error + cell" where
  "cache_get c i = (if unat i < length c then Inr (c ! unat i) else Inl OutOfBounds)"

text \<open>\<^verbatim>\<open>_cache[i]\<close> as a value that is compared or printed.\<close>

definition cache_val :: "cell list \<Rightarrow> size_t \<Rightarrow> error + elem" where
  "cache_val c i =
     (case cache_get c i of
        Inl e \<Rightarrow> Inl e
      | Inr None \<Rightarrow> Inl UninitRead
      | Inr (Some v) \<Rightarrow> Inr v)"

text \<open>\<^verbatim>\<open>_cache[i] = v\<close>.\<close>

definition cache_set :: "cell list \<Rightarrow> size_t \<Rightarrow> cell \<Rightarrow> error + cell list" where
  "cache_set c i v = (if unat i < length c then Inr (c[unat i := v]) else Inl OutOfBounds)"

text \<open>\<^verbatim>\<open>swap(_cache[i], _cache[j])\<close>.\<close>

definition cache_swap :: "cell list \<Rightarrow> size_t \<Rightarrow> size_t \<Rightarrow> error + cell list" where
  "cache_swap c i j =
     (if unat i < length c \<and> unat j < length c
      then Inr (c[unat i := c ! unat j, unat j := c ! unat i])
      else Inl OutOfBounds)"

subsection \<open>Allocation\<close>

text \<open>
  \<^verbatim>\<open>new T[n]\<close>: the array may not be larger than \<^verbatim>\<open>PTRDIFF_MAX\<close> bytes, which for the
  four-byte \<^verbatim>\<open>int\<close> is \<open>(2 ^ 63 - 1) div 4\<close> cells; a larger request throws. Memory is
  otherwise taken to be unlimited. The cells of the new array are indeterminate.
\<close>

definition max_cells :: nat where
  "max_cells = (2 ^ 63 - 1) div 4"

definition new_array :: "size_t \<Rightarrow> error + cell list" where
  "new_array n =
     (if max_cells < unat n then Inl AllocationFailure else Inr (replicate (unat n) None))"

text \<open>
  A pointer into the free store sees either a live array or one that has been
  released; \<^verbatim>\<open>delete\<close> releases it, and a read through the stale pointer fails.
\<close>

datatype block = Live "cell list" | Freed

definition delete_block :: "block \<Rightarrow> block" where
  "delete_block b = Freed"

definition block_get :: "block \<Rightarrow> size_t \<Rightarrow> error + cell" where
  "block_get b i = (case b of Freed \<Rightarrow> Inl UseAfterFree | Live c \<Rightarrow> cache_get c i)"

subsection \<open>The constructor\<close>

text \<open>\<^verbatim>\<open>_cache = new T[capacity + 1]; _size = 0; _capacity = capacity;\<close>\<close>

definition MinHeap :: "size_t \<Rightarrow> error + heap" where
  "MinHeap capacity =
     (case new_array (capacity + 1) of
        Inl e \<Rightarrow> Inl e
      | Inr c \<Rightarrow> Inr \<lparr>h_cache = c, h_size = 0, h_capacity = capacity\<rparr>)"

subsection \<open>PercolateUp\<close>

text \<open>
  The guard is \<^verbatim>\<open>parent > 0 && _cache[parent] < _cache[index]\<close>: the array is read
  only when \<open>parent\<close> is not 0.
\<close>

function PercolateUp :: "heap \<Rightarrow> size_t \<Rightarrow> error + heap" where
  "PercolateUp h index =
     (let parent = GetParentNode index in
      if 0 < parent then
        (case cache_val (h_cache h) parent of
           Inl e \<Rightarrow> Inl e
         | Inr p \<Rightarrow>
             (case cache_val (h_cache h) index of
                Inl e \<Rightarrow> Inl e
              | Inr v \<Rightarrow>
                  if sint p < sint v then
                    (case cache_swap (h_cache h) parent index of
                       Inl e \<Rightarrow> Inl e
                     | Inr c \<Rightarrow> PercolateUp (h\<lparr>h_cache := c\<rparr>) parent)
                  else Inr h))
      else Inr h)"
  by pat_completeness auto

lemma unat_GetParentNode:
  "index \<noteq> 0 \<Longrightarrow> unat (GetParentNode index) = (unat index - 1) div 2"
  by (simp add: GetParentNode_def unat_div unat_minus_one)

lemma GetParentNode_0: "GetParentNode 0 = 9223372036854775807"
  by (simp add: GetParentNode_def)

lemma GetParentNode_less:
  "index \<noteq> 0 \<Longrightarrow> unat (GetParentNode index) < unat index"
proof -
  assume nz: "index \<noteq> 0"
  then have "0 < unat index"
    by (simp add: unat_gt_0)
  then show ?thesis
    using nz by (simp add: unat_GetParentNode)
qed

termination PercolateUp
proof (relation "measure (\<lambda>(h, i). if i = 0 then 2 ^ 64 else unat i)")
  show "wf (measure (\<lambda>(h :: heap, i :: size_t). if i = 0 then 2 ^ 64 else unat i))"
    by simp
next
  fix h :: heap and index parent :: size_t
  assume p: "parent = GetParentNode index" and pos: "0 < parent"
  from pos have pz: "parent \<noteq> 0"
    by (simp add: word_gt_0)
  show "((h\<lparr>h_cache := c\<rparr>, parent), (h, index))
          \<in> measure (\<lambda>(h, i). if i = 0 then 2 ^ 64 else unat i)" for c
  proof (cases "index = 0")
    case True
    then show ?thesis
      using p pz by (simp add: GetParentNode_0)
  next
    case False
    then show ?thesis
      using p pz GetParentNode_less [of index] by simp
  qed
qed

declare PercolateUp.simps [simp del]

subsection \<open>PercolateDown\<close>

text \<open>
  Both branches of the source's \<^verbatim>\<open>if (_cache[left_child] > -1 && _cache[right_child] > -1)\<close>
  end in \<^verbatim>\<open>swap(_cache[parent], _cache[k]); PercolateDown(k);\<close> and differ in the choice
  of \<open>k\<close>: \<^verbatim>\<open>max_index\<close> in the first, \<^verbatim>\<open>child_select\<close> in the second. The choice is
  \<open>PercolateDown_select\<close>. \<^verbatim>\<open>&&\<close> reads the right child only when the left one is
  greater than \<open>-1\<close>. \<^verbatim>\<open>max(a, b)\<close> is \<^verbatim>\<open>(a < b) ? b : a\<close>; storing it in an
  \<^verbatim>\<open>unsigned int\<close> and comparing with the \<^verbatim>\<open>int\<close> cell compares the 32-bit patterns.
\<close>

definition PercolateDown_select :: "heap \<Rightarrow> size_t \<Rightarrow> error + size_t" where
  "PercolateDown_select h parent =
     (let left_child = GetLeftChildNode parent;
          right_child = GetRightChildNode parent in
      case cache_val (h_cache h) left_child of
        Inl e \<Rightarrow> Inl e
      | Inr l \<Rightarrow>
          if sint (- 1 :: elem) < sint l then
            (case cache_val (h_cache h) right_child of
               Inl e \<Rightarrow> Inl e
             | Inr r \<Rightarrow>
                 if sint (- 1 :: elem) < sint r then
                   (let max_value = (if sint l < sint r then r else l) in
                    Inr (if max_value = l then left_child else right_child))
                 else Inr (if l \<noteq> - 1 then left_child else right_child))
          else Inr (if l \<noteq> - 1 then left_child else right_child))"

text \<open>
  The recursion has no structural bound in the source (the next index is a child of
  \<^verbatim>\<open>GetParentNode(index + 2)\<close>, computed in wrapping arithmetic), so not returning is
  the value \<open>None\<close>.
\<close>

partial_function (option) PercolateDown :: "heap \<Rightarrow> size_t \<Rightarrow> (error + heap) option" where
  "PercolateDown h index =
     (if GetLeftChildNode index < h_size h \<and> GetRightChildNode index < h_size h then
        (let parent = GetParentNode (index + 2) in
         case PercolateDown_select h parent of
           Inl e \<Rightarrow> Some (Inl e)
         | Inr child \<Rightarrow>
             (case cache_swap (h_cache h) parent child of
                Inl e \<Rightarrow> Some (Inl e)
              | Inr c \<Rightarrow> PercolateDown (h\<lparr>h_cache := c\<rparr>) child))
      else Some (Inr h))"

declare PercolateDown.simps [code]

subsection \<open>CacheResize\<close>

text \<open>
  \<^verbatim>\<open>for (size_t i = 1; i < _capacity; i++) _cache[i] = temp[i];\<close> with \<open>temp\<close> the
  block the old pointer refers to and \<open>c\<close> the new array.
\<close>

function CacheResize_copy :: "block \<Rightarrow> cell list \<Rightarrow> size_t \<Rightarrow> size_t \<Rightarrow> error + cell list" where
  "CacheResize_copy temp c i cap =
     (if i < cap then
        (case block_get temp i of
           Inl e \<Rightarrow> Inl e
         | Inr v \<Rightarrow>
             (case cache_set c i v of
                Inl e \<Rightarrow> Inl e
              | Inr c' \<Rightarrow> CacheResize_copy temp c' (i + 1) cap))
      else Inr c)"
  by pat_completeness auto

lemma unat_Suc_less:
  fixes i n :: size_t
  assumes "i < n"
  shows "unat (i + 1) = Suc (unat i)"
proof -
  have "unat i < unat n"
    using assms by (simp add: word_less_nat_alt)
  moreover have "unat n < 2 ^ 64"
    using unsigned_less [of n] by simp
  ultimately have "unat i + 1 < 2 ^ 64"
    by linarith
  then show ?thesis
    by (simp add: unat_word_ariths)
qed

termination CacheResize_copy
proof (relation "measure (\<lambda>(temp, c, i, cap). unat cap - unat i)")
  show "wf (measure (\<lambda>(temp :: block, c :: cell list, i :: size_t, cap :: size_t). unat cap - unat i))"
    by simp
next
  fix temp :: block and c c' :: "cell list" and i cap :: size_t
  assume "i < cap"
  then show "((temp, c', i + 1, cap), (temp, c, i, cap))
          \<in> measure (\<lambda>(temp, c, i, cap). unat cap - unat i)"
    using unat_Suc_less [of i cap] by (simp add: word_less_nat_alt)
qed

declare CacheResize_copy.simps [simp del]

text \<open>
  \<^verbatim>\<open>T* temp = _cache; delete _cache; _cache = new T[new_capacity];\<close> then the copy
  loop, then \<^verbatim>\<open>_capacity = new_capacity\<close>. The old array is released before the loop
  reads it through \<open>temp\<close>.
\<close>

definition CacheResize :: "heap \<Rightarrow> size_t \<Rightarrow> error + heap" where
  "CacheResize h new_capacity =
     (let temp = delete_block (Live (h_cache h)) in
      case new_array new_capacity of
        Inl e \<Rightarrow> Inl e
      | Inr c \<Rightarrow>
          (case CacheResize_copy temp c 1 (h_capacity h) of
             Inl e \<Rightarrow> Inl e
           | Inr c' \<Rightarrow> Inr (h\<lparr>h_cache := c', h_capacity := new_capacity\<rparr>)))"

subsection \<open>Insert\<close>

text \<open>
  \<^verbatim>\<open>_size++; if (_size == _capacity) CacheResize(_capacity * 2);\<close>
  \<^verbatim>\<open>_cache[_size - 1] = x; PercolateUp(_size - 1);\<close>
\<close>

definition Insert :: "heap \<Rightarrow> elem \<Rightarrow> error + heap" where
  "Insert h x =
     (let h1 = h\<lparr>h_size := h_size h + 1\<rparr> in
      case (if h_size h1 = h_capacity h1 then CacheResize h1 (h_capacity h1 * 2) else Inr h1) of
        Inl e \<Rightarrow> Inl e
      | Inr h2 \<Rightarrow>
          (case cache_set (h_cache h2) (h_size h2 - 1) (Some x) of
             Inl e \<Rightarrow> Inl e
           | Inr c \<Rightarrow> PercolateUp (h2\<lparr>h_cache := c\<rparr>) (h_size h2 - 1)))"

text \<open>A run of \<^verbatim>\<open>Insert\<close> calls, as in \<^verbatim>\<open>main\<close>; it stops at the first failure.\<close>

fun InsertAll :: "heap \<Rightarrow> elem list \<Rightarrow> error + heap" where
  "InsertAll h [] = Inr h"
| "InsertAll h (x # xs) = (case Insert h x of Inl e \<Rightarrow> Inl e | Inr h' \<Rightarrow> InsertAll h' xs)"

subsection \<open>Delete\<close>

text \<open>
  \<^verbatim>\<open>swap(_cache[0], _cache[_size - 1]); _size--; PercolateDown(0);\<close>
  \<^verbatim>\<open>Delete\<close> is declared \<^verbatim>\<open>void\<close>: the first component of a successful result is the
  value handed to the caller, and there is none.
\<close>

definition Delete :: "heap \<Rightarrow> (error + elem option \<times> heap) option" where
  "Delete h =
     (case cache_swap (h_cache h) 0 (h_size h - 1) of
        Inl e \<Rightarrow> Some (Inl e)
      | Inr c \<Rightarrow>
          map_option (map_sum id (Pair None))
            (PercolateDown (h\<lparr>h_cache := c, h_size := h_size h - 1\<rparr>) 0))"

subsection \<open>Print\<close>

text \<open>
  \<^verbatim>\<open>for (size_t i = 0; i < _size; i++) out << i << ". " << _cache[i] << endl;\<close>
  The output is the list of the lines, each an index and a value.
\<close>

function Print_loop :: "heap \<Rightarrow> size_t \<Rightarrow> (size_t \<times> elem) list \<Rightarrow> error + (size_t \<times> elem) list" where
  "Print_loop h i out =
     (if i < h_size h then
        (case cache_val (h_cache h) i of
           Inl e \<Rightarrow> Inl e
         | Inr v \<Rightarrow> Print_loop h (i + 1) (out @ [(i, v)]))
      else Inr out)"
  by pat_completeness auto

termination Print_loop
proof (relation "measure (\<lambda>(h, i, out). unat (h_size h) - unat i)")
  show "wf (measure (\<lambda>(h :: heap, i :: size_t, out :: (size_t \<times> elem) list). unat (h_size h) - unat i))"
    by simp
next
  fix h :: heap and i :: size_t and out :: "(size_t \<times> elem) list" and v :: elem
  assume "i < h_size h"
  then show "((h, i + 1, out @ [(i, v)]), (h, i, out))
          \<in> measure (\<lambda>(h, i, out). unat (h_size h) - unat i)"
    using unat_Suc_less [of i "h_size h"] by (simp add: word_less_nat_alt)
qed

declare Print_loop.simps [simp del]

definition Print :: "heap \<Rightarrow> error + (size_t \<times> elem) list" where
  "Print h = Print_loop h 0 []"

subsection \<open>The invariants the claims speak of\<close>

text \<open>
  The valid prefix of a heap is the first \<open>_size\<close> cells of \<open>_cache\<close>. It is
  \<open>initialised\<close> when every cell of it holds a value.
\<close>

definition valid_prefix :: "heap \<Rightarrow> cell list" where
  "valid_prefix h = take (unat (h_size h)) (h_cache h)"

definition initialised :: "heap \<Rightarrow> bool" where
  "initialised h = (None \<notin> set (valid_prefix h))"

text \<open>
  The heap order of a max-heap: the cell at \<open>i > 0\<close> is not greater than the cell at
  its parent \<open>(i - 1) div 2\<close>, for every \<open>i\<close> below \<open>_size\<close>.
\<close>

definition parent_ok :: "cell list \<Rightarrow> nat \<Rightarrow> bool" where
  "parent_ok c i =
     (case (c ! ((i - 1) div 2), c ! i) of
        (Some p, Some v) \<Rightarrow> sint v \<le> sint p
      | _ \<Rightarrow> False)"

definition heap_order :: "heap \<Rightarrow> bool" where
  "heap_order h =
     (unat (h_size h) \<le> length (h_cache h)
      \<and> list_all (parent_ok (h_cache h)) [1..<unat (h_size h)])"

text \<open>What a step may not change: the counters and the length of the array.\<close>

definition same_frame :: "heap \<Rightarrow> error + heap \<Rightarrow> bool" where
  "same_frame h y =
     (case y of
        Inl e \<Rightarrow> True
      | Inr h' \<Rightarrow> h_size h' = h_size h \<and> h_capacity h' = h_capacity h
          \<and> length (h_cache h') = length (h_cache h))"

subsection \<open>Heap states used as examples\<close>

text \<open>The heap \<^verbatim>\<open>MinHeap<int>(4)\<close> builds: five indeterminate cells.\<close>

definition fresh4 :: heap where
  "fresh4 = \<lparr>h_cache = [None, None, None, None, None], h_size = 0, h_capacity = 4\<rparr>"

text \<open>A heap of capacity 4 that holds the single element 5.\<close>

definition one4 :: heap where
  "one4 = \<lparr>h_cache = [Some 5, None, None, None, None], h_size = 1, h_capacity = 4\<rparr>"

text \<open>A max-heap of capacity 4 that holds 10, 7 and 5.\<close>

definition three4 :: heap where
  "three4 = \<lparr>h_cache = [Some 10, Some 7, Some 5, None, None], h_size = 3, h_capacity = 4\<rparr>"

text \<open>A heap of capacity 3 that holds 5 and 3: the next \<^verbatim>\<open>Insert\<close> finds it full.\<close>

definition full3 :: heap where
  "full3 = \<lparr>h_cache = [Some 5, Some 3, None, None], h_size = 2, h_capacity = 3\<rparr>"

section \<open>Index arithmetic\<close>

text \<open>
  C8. The index helpers realise the structural mapping: for every index \<open>i > 0\<close> the
  parent is \<open>floor ((i - 1) / 2)\<close>; the children of \<open>i\<close> are \<open>2 i + 1\<close> and \<open>2 i + 2\<close>, as
  \<^verbatim>\<open>size_t\<close> values for every \<open>i\<close>, and as natural numbers for every \<open>i\<close> that can
  index an array (below \<open>2 ^ 63 - 1\<close>, where the doubling does not wrap).
\<close>

theorem index_helpers:
  "(0 < i \<longrightarrow> unat (GetParentNode i) = (unat i - 1) div 2)
   \<and> GetLeftChildNode i = 2 * i + 1
   \<and> GetRightChildNode i = 2 * i + 2
   \<and> (unat i < 2 ^ 63 - 1 \<longrightarrow>
        unat (GetLeftChildNode i) = 2 * unat i + 1
        \<and> unat (GetRightChildNode i) = 2 * unat i + 2)"
proof -
  have parent: "0 < i \<longrightarrow> unat (GetParentNode i) = (unat i - 1) div 2"
    by (simp add: unat_GetParentNode word_gt_0)
  have children: "unat (GetLeftChildNode i) = 2 * unat i + 1
      \<and> unat (GetRightChildNode i) = 2 * unat i + 2"
    if small: "unat i < 2 ^ 63 - 1"
  proof -
    from small have "2 * unat i + 2 < 2 ^ 64"
      by simp
    then show ?thesis
      by (simp add: GetLeftChildNode_def GetRightChildNode_def unat_word_ariths)
  qed
  show ?thesis
    using parent children
    by (simp add: GetLeftChildNode_def GetRightChildNode_def)
qed

theorem index_helpers_witness:
  "0 < (5 :: size_t) \<and> unat (5 :: size_t) < 2 ^ 63 - 1
   \<and> unat (GetParentNode 5) = 2
   \<and> unat (GetLeftChildNode 5) = 11
   \<and> unat (GetRightChildNode 5) = 12"
  using index_helpers [of 5] by simp

section \<open>The first Insert\<close>

lemma cache_val_far:
  "length c \<le> unat i \<Longrightarrow> cache_val c i = Inl OutOfBounds"
  by (simp add: cache_val_def cache_get_def)

lemma PercolateUp_0:
  assumes "length (h_cache h) < 2 ^ 63"
  shows "PercolateUp h 0 = Inl OutOfBounds"
proof -
  have "length (h_cache h) \<le> unat (GetParentNode 0)"
    using assms by (simp add: GetParentNode_0)
  then have "cache_val (h_cache h) (GetParentNode 0) = Inl OutOfBounds"
    by (rule cache_val_far)
  moreover have "0 < GetParentNode 0"
    by (simp add: GetParentNode_0)
  ultimately show ?thesis
    by (simp add: PercolateUp.simps [of h 0] Let_def)
qed

lemma CacheResize_copy_done: "\<not> i < cap \<Longrightarrow> CacheResize_copy temp c i cap = Inr c"
  by (simp add: CacheResize_copy.simps [of temp c i cap])

lemma CacheResize_copy_freed:
  "i < cap \<Longrightarrow> CacheResize_copy Freed c i cap = Inl UseAfterFree"
  by (simp add: CacheResize_copy.simps [of Freed c i cap] block_get_def)

text \<open>
  C9. On the first \<^verbatim>\<open>Insert\<close> into an empty heap the sift-up step is
  \<^verbatim>\<open>PercolateUp(0)\<close>. \<^verbatim>\<open>GetParentNode(0)\<close> is \<open>(0 - 1) div 2\<close> in unsigned 64-bit
  arithmetic, that is \<open>2 ^ 63 - 1\<close>; the guard \<open>parent > 0\<close> holds, and the read
  \<^verbatim>\<open>_cache[parent]\<close> is outside every array of fewer than \<open>2 ^ 63\<close> cells: on
  every heap \<open>g\<close> with such an array \<^verbatim>\<open>PercolateUp(0)\<close> ends in that read. So the
  \<^verbatim>\<open>Insert\<close> does not return a heap: it ends in an out-of-bounds access.
\<close>

theorem first_insert_out_of_bounds:
  assumes empty: "h_size h = 0" and len: "length (h_cache h) < 2 ^ 63"
  shows "unat (GetParentNode 0) = 2 ^ 63 - 1
    \<and> 0 < GetParentNode 0
    \<and> (length (h_cache g) < 2 ^ 63 \<longrightarrow>
          cache_val (h_cache g) (GetParentNode 0) = Inl OutOfBounds
          \<and> PercolateUp g 0 = Inl OutOfBounds)
    \<and> Insert h x = Inl OutOfBounds"
proof -
  have a: "unat (GetParentNode 0) = 2 ^ 63 - 1"
    by (simp add: GetParentNode_0)
  have b: "0 < GetParentNode 0"
    by (simp add: GetParentNode_0)
  have c: "cache_val (h_cache g) (GetParentNode 0) = Inl OutOfBounds
      \<and> PercolateUp g 0 = Inl OutOfBounds"
    if small: "length (h_cache g) < 2 ^ 63"
  proof -
    from small have "length (h_cache g) \<le> unat (GetParentNode 0)"
      by (simp add: GetParentNode_0)
    then have "cache_val (h_cache g) (GetParentNode 0) = Inl OutOfBounds"
      by (rule cache_val_far)
    with PercolateUp_0 [OF small] show ?thesis
      by simp
  qed
  have d: "Insert h x = Inl OutOfBounds"
  proof (cases "h_capacity h = 1")
    case True
    have "replicate 2 (None :: cell) = [None, None]"
      by (simp add: numeral_2_eq_2)
    then have na: "new_array 2 = Inr [None, None]"
      by (simp add: new_array_def max_cells_def)
    have "CacheResize (h\<lparr>h_size := 1\<rparr>) 2 = Inr (h\<lparr>h_size := 1, h_cache := [None, None], h_capacity := 2\<rparr>)"
      using True by (simp add: CacheResize_def na add: CacheResize_copy_done)
    then show ?thesis
      using True empty by (simp add: Insert_def cache_set_def PercolateUp_0)
  next
    case False
    show ?thesis
    proof (cases "h_cache h = []")
      case True
      then show ?thesis
        using False empty by (simp add: Insert_def cache_set_def)
    next
      case nonempty: False
      show ?thesis
        using False empty nonempty len
        by (simp add: Insert_def cache_set_def PercolateUp_0)
    qed
  qed
  from a b c d show ?thesis
    by blast
qed

theorem first_insert_out_of_bounds_witness:
  "h_size fresh4 = 0 \<and> length (h_cache fresh4) < 2 ^ 63
   \<and> MinHeap 4 = Inr fresh4
   \<and> length (h_cache one4) < 2 ^ 63
   \<and> PercolateUp one4 0 = Inl OutOfBounds
   \<and> Insert fresh4 5 = Inl OutOfBounds"
proof -
  have a: "h_size fresh4 = 0" and b: "length (h_cache fresh4) < 2 ^ 63"
    and g: "length (h_cache one4) < 2 ^ 63"
    by (simp_all add: fresh4_def one4_def)
  have "replicate 5 (None :: cell) = [None, None, None, None, None]"
    by (simp add: eval_nat_numeral)
  then have c: "MinHeap 4 = Inr fresh4"
    by (simp add: MinHeap_def new_array_def max_cells_def fresh4_def)
  from first_insert_out_of_bounds [OF a b, of one4 5] a b c g show ?thesis
    by simp
qed

section \<open>Insert never writes the root\<close>

lemma PercolateUp_frame:
  "PercolateUp h i = Inr h' \<Longrightarrow> i \<noteq> 0 \<Longrightarrow>
     h_cache h' ! 0 = h_cache h ! 0 \<and> length (h_cache h') = length (h_cache h)
     \<and> h_size h' = h_size h \<and> h_capacity h' = h_capacity h"
proof (induction h i arbitrary: h' rule: PercolateUp.induct)
  case (1 h index)
  show ?case
  proof (cases "0 < GetParentNode index")
    case False
    with "1.prems" show ?thesis
      by (simp add: PercolateUp.simps [of h index])
  next
    case True
    then have pz: "GetParentNode index \<noteq> 0"
      by (simp add: word_gt_0)
    then have upz: "unat (GetParentNode index) \<noteq> 0"
      by (simp add: unat_eq_zero)
    from "1.prems"(2) have uiz: "unat index \<noteq> 0"
      by (simp add: unat_eq_zero)
    from "1.prems"(1) True obtain p v where
      p: "cache_val (h_cache h) (GetParentNode index) = Inr p" and
      v: "cache_val (h_cache h) index = Inr v"
      by (auto simp: PercolateUp.simps [of h index] Let_def split: sum.splits)
    show ?thesis
    proof (cases "sint p < sint v")
      case False
      with "1.prems" True p v show ?thesis
        by (simp add: PercolateUp.simps [of h index] Let_def)
    next
      case less: True
      with "1.prems"(1) True p v obtain c where
        c: "cache_swap (h_cache h) (GetParentNode index) index = Inr c" and
        rec: "PercolateUp (h\<lparr>h_cache := c\<rparr>) (GetParentNode index) = Inr h'"
        by (auto simp: PercolateUp.simps [of h index] Let_def split: sum.splits)
      from c have ceq: "c = (h_cache h)[unat (GetParentNode index) := h_cache h ! unat index,
            unat index := h_cache h ! unat (GetParentNode index)]"
        by (auto simp: cache_swap_def split: if_splits)
      have ih: "h_cache h' ! 0 = h_cache (h\<lparr>h_cache := c\<rparr>) ! 0 \<and>
          length (h_cache h') = length (h_cache (h\<lparr>h_cache := c\<rparr>)) \<and>
          h_size h' = h_size (h\<lparr>h_cache := c\<rparr>) \<and> h_capacity h' = h_capacity (h\<lparr>h_cache := c\<rparr>)"
        using "1.IH" [OF refl True p v less c rec pz] .
      then show ?thesis
        using ceq upz uiz by simp
    qed
  qed
qed

text \<open>
  C10. An \<^verbatim>\<open>Insert\<close> into a heap with \<open>_size \<ge> 1\<close> that does not resize
  (\<open>_size + 1 \<noteq> _capacity\<close>) and returns leaves the cell at index 0 as it was: the new
  element is stored at an index other than 0, and \<^verbatim>\<open>PercolateUp\<close> swaps only with a
  parent index greater than 0.
\<close>

theorem insert_keeps_root:
  assumes ret: "Insert h x = Inr h'"
    and nonempty: "h_size h \<noteq> 0"
    and noresize: "h_size h + 1 \<noteq> h_capacity h"
  shows "0 < length (h_cache h) \<and> length (h_cache h') = length (h_cache h)
    \<and> h_cache h' ! 0 = h_cache h ! 0"
proof -
  from ret noresize obtain c where
    c: "cache_set (h_cache h) (h_size h) (Some x) = Inr c" and
    up: "PercolateUp (h\<lparr>h_size := h_size h + 1, h_cache := c\<rparr>) (h_size h) = Inr h'"
    by (auto simp: Insert_def Let_def split: sum.splits)
  from c have inb: "unat (h_size h) < length (h_cache h)" and
    ceq: "c = (h_cache h)[unat (h_size h) := Some x]"
    by (auto simp: cache_set_def split: if_splits)
  from nonempty have unz: "unat (h_size h) \<noteq> 0"
    by (simp add: unat_eq_zero)
  from PercolateUp_frame [OF up nonempty] ceq unz inb show ?thesis
    by auto
qed

theorem insert_keeps_root_witness:
  "Insert one4 8 = Inr \<lparr>h_cache = [Some 5, Some 8, None, None, None], h_size = 2, h_capacity = 4\<rparr>
   \<and> h_size one4 \<noteq> 0 \<and> h_size one4 + 1 \<noteq> h_capacity one4
   \<and> h_cache one4 ! 0 = Some 5"
proof -
  have a: "Insert one4 8 = Inr \<lparr>h_cache = [Some 5, Some 8, None, None, None], h_size = 2, h_capacity = 4\<rparr>"
    unfolding one4_def by code_simp
  have b: "h_size one4 \<noteq> 0" and c: "h_size one4 + 1 \<noteq> h_capacity one4"
    by (simp_all add: one4_def)
  from insert_keeps_root [OF a b c] a b c show ?thesis
    by (simp add: one4_def)
qed

section \<open>PercolateDown returns on a well-formed heap\<close>

text \<open>
  Below \<open>2 ^ 63 - 1\<close> the index arithmetic of \<^verbatim>\<open>PercolateDown\<close> does not wrap.
\<close>

lemma unat_children:
  fixes i :: size_t
  assumes "unat i < 2 ^ 63 - 1"
  shows "unat (GetLeftChildNode i) = 2 * unat i + 1"
    and "unat (GetRightChildNode i) = 2 * unat i + 2"
proof -
  from assms have "2 * unat i + 2 < 2 ^ 64"
    by simp
  then show "unat (GetLeftChildNode i) = 2 * unat i + 1"
    and "unat (GetRightChildNode i) = 2 * unat i + 2"
    by (simp_all add: GetLeftChildNode_def GetRightChildNode_def unat_word_ariths)
qed

lemma unat_down_parent:
  fixes i :: size_t
  assumes "unat i < 2 ^ 63 - 1"
  shows "unat (GetParentNode (i + 2)) = (unat i + 1) div 2"
proof -
  have "i + 2 - 1 = i + 1"
    by simp
  then have "GetParentNode (i + 2) = (i + 1) div 2"
    by (simp only: GetParentNode_def)
  moreover from assms have "unat (i + 1) = unat i + 1"
    by (simp add: unat_word_ariths)
  ultimately show ?thesis
    by (simp only: unat_div) simp
qed

lemma prefix_val:
  assumes "None \<notin> set (take n c)" and "k < n" and "n \<le> length c"
  shows "\<exists>v. c ! k = Some v"
proof -
  have "take n c ! k \<in> set (take n c)"
    using assms by (intro nth_mem) simp
  then have "c ! k \<in> set (take n c)"
    using assms by simp
  with assms(1) show ?thesis
    by (cases "c ! k") auto
qed

lemma cache_val_prefix:
  assumes "None \<notin> set (take n c)" and "unat k < n" and "n \<le> length c"
  shows "\<exists>v. cache_val c k = Inr v"
  using prefix_val [OF assms] assms by (auto simp: cache_val_def cache_get_def)

lemma PercolateDown_select_child:
  assumes "\<exists>v. cache_val (h_cache h) (GetLeftChildNode p) = Inr v"
    and "\<exists>v. cache_val (h_cache h) (GetRightChildNode p) = Inr v"
  shows "PercolateDown_select h p = Inr (GetLeftChildNode p)
       \<or> PercolateDown_select h p = Inr (GetRightChildNode p)"
  using assms by (auto simp: PercolateDown_select_def Let_def)

lemma swap_prefix:
  assumes "i < n" and "j < n" and "n \<le> length c"
  shows "mset (take n (c[i := c ! j, j := c ! i])) = mset (take n c)"
    and "drop n (c[i := c ! j, j := c ! i]) = drop n c"
proof -
  have "take n (c[i := c ! j, j := c ! i])
      = (take n c)[i := take n c ! j, j := take n c ! i]"
    using assms by (simp add: take_update_swap)
  also have "mset \<dots> = mset (take n c)"
    using assms by (intro mset_swap) simp_all
  finally show "mset (take n (c[i := c ! j, j := c ! i])) = mset (take n c)" .
  show "drop n (c[i := c ! j, j := c ! i]) = drop n c"
    using assms by simp
qed

text \<open>
  When the valid prefix lies inside an array of fewer than \<open>2 ^ 63\<close> cells and is
  initialised, \<^verbatim>\<open>PercolateDown\<close> returns: each step moves to an index strictly
  greater than the current one and below \<open>_size\<close>. It permutes the valid prefix
  and leaves everything else alone.
\<close>

lemma PercolateDown_returns:
  assumes "unat (h_size h) \<le> length (h_cache h)"
    and "length (h_cache h) < 2 ^ 63"
    and "None \<notin> set (take (unat (h_size h)) (h_cache h))"
    and "unat index < 2 ^ 63 - 1"
  shows "\<exists>h'. PercolateDown h index = Some (Inr h')
      \<and> h_size h' = h_size h \<and> h_capacity h' = h_capacity h
      \<and> length (h_cache h') = length (h_cache h)
      \<and> mset (take (unat (h_size h)) (h_cache h')) = mset (take (unat (h_size h)) (h_cache h))
      \<and> drop (unat (h_size h)) (h_cache h') = drop (unat (h_size h)) (h_cache h)"
  using assms
proof (induction "unat (h_size h) - unat index" arbitrary: h index rule: less_induct)
  case less
  let ?n = "unat (h_size h)"
  let ?c = "h_cache h"
  show ?case
  proof (cases "GetLeftChildNode index < h_size h \<and> GetRightChildNode index < h_size h")
    case False
    then have "PercolateDown h index = Some (Inr h)"
      by (subst PercolateDown.simps) auto
    then show ?thesis
      by simp
  next
    case True
    let ?p = "GetParentNode (index + 2)"
    let ?l = "GetLeftChildNode ?p"
    let ?r = "GetRightChildNode ?p"
    from True have guard: "2 * unat index + 2 < ?n"
      using unat_children [OF less.prems(4)] by (simp add: word_less_nat_alt)
    have up: "unat ?p = (unat index + 1) div 2"
      by (rule unat_down_parent [OF less.prems(4)])
    then have psmall: "unat ?p < 2 ^ 63 - 1"
      using less.prems(4) by simp
    have ul: "unat ?l = 2 * ((unat index + 1) div 2) + 1"
      and ur: "unat ?r = 2 * ((unat index + 1) div 2) + 2"
      using unat_children [OF psmall] up by simp_all
    have rn: "unat ?r < ?n"
      using ur guard by (cases "unat index = 0") auto
    have ln: "unat ?l < ?n"
      using ul ur rn by simp
    have pn: "unat ?p < ?n"
      using up guard by simp
    have lgt: "unat index < unat ?l" and rgt: "unat index < unat ?r"
      using ul ur by presburger+
    have "\<exists>v. cache_val ?c ?l = Inr v"
      using less.prems(3) ln less.prems(1) by (rule cache_val_prefix)
    moreover have "\<exists>v. cache_val ?c ?r = Inr v"
      using less.prems(3) rn less.prems(1) by (rule cache_val_prefix)
    ultimately have "PercolateDown_select h ?p = Inr ?l \<or> PercolateDown_select h ?p = Inr ?r"
      by (rule PercolateDown_select_child)
    then obtain child where
      sel: "PercolateDown_select h ?p = Inr child" and
      cn: "unat child < ?n" and cgt: "unat index < unat child"
      using ln rn lgt rgt by auto
    let ?c' = "?c[unat ?p := ?c ! unat child, unat child := ?c ! unat ?p]"
    let ?h' = "h\<lparr>h_cache := ?c'\<rparr>"
    have sw: "cache_swap ?c ?p child = Inr ?c'"
      using pn cn less.prems(1) by (simp add: cache_swap_def)
    have step: "PercolateDown h index = PercolateDown ?h' child"
      using True sel sw by (subst PercolateDown.simps) (simp add: Let_def)
    have ms: "mset (take ?n ?c') = mset (take ?n ?c)"
      and dr: "drop ?n ?c' = drop ?n ?c"
      using swap_prefix [OF pn cn less.prems(1)] by simp_all
    have init': "None \<notin> set (take (unat (h_size ?h')) (h_cache ?h'))"
    proof -
      have "set (take ?n ?c') = set (take ?n ?c)"
        using ms by (metis set_mset_mset)
      then show ?thesis
        using less.prems(3) by simp
    qed
    have csmall: "unat child < 2 ^ 63 - 1"
      using cn less.prems(1,2) by simp
    have "unat (h_size ?h') - unat child < ?n - unat index"
      using cn cgt by simp
    from less.hyps [OF this _ _ init' csmall] less.prems(1,2)
    obtain h'' where
      r: "PercolateDown ?h' child = Some (Inr h'')" and
      f: "h_size h'' = h_size h" "h_capacity h'' = h_capacity h"
         "length (h_cache h'') = length ?c"
         "mset (take ?n (h_cache h'')) = mset (take ?n ?c')"
         "drop ?n (h_cache h'') = drop ?n ?c'"
      by auto
    show ?thesis
      using step r f ms dr by simp
  qed
qed

text \<open>Whenever it returns, the counters and the length of the array are unchanged.\<close>

lemma PercolateDown_frame:
  assumes "PercolateDown h index = Some y"
  shows "same_frame h y"
proof (rule PercolateDown.raw_induct [where P = "\<lambda>h index y. same_frame h y", OF _ assms])
  fix f :: "heap \<Rightarrow> size_t \<Rightarrow> (error + heap) option"
    and h :: heap and index :: size_t and y :: "error + heap"
  assume IH: "\<And>h index y. f h index = Some y \<Longrightarrow> same_frame h y"
    and body: "(if GetLeftChildNode index < h_size h \<and> GetRightChildNode index < h_size h
      then let parent = GetParentNode (index + 2)
           in case PercolateDown_select h parent of
                Inl e \<Rightarrow> Some (Inl e)
              | Inr child \<Rightarrow>
                  (case cache_swap (h_cache h) parent child of
                     Inl e \<Rightarrow> Some (Inl e)
                   | Inr c \<Rightarrow> f (h\<lparr>h_cache := c\<rparr>) child)
      else Some (Inr h)) = Some y"
  show "same_frame h y"
  proof (cases "GetLeftChildNode index < h_size h \<and> GetRightChildNode index < h_size h")
    case False
    with body show ?thesis
      by (auto simp: same_frame_def)
  next
    case True
    show ?thesis
    proof (cases y)
      case (Inl e)
      then show ?thesis
        by (simp add: same_frame_def)
    next
      case (Inr h')
      with True body obtain child c where
        sw: "cache_swap (h_cache h) (GetParentNode (index + 2)) child = Inr c" and
        rec: "f (h\<lparr>h_cache := c\<rparr>) child = Some (Inr h')"
        by (auto simp: Let_def split: sum.splits)
      from sw have "length c = length (h_cache h)"
        by (auto simp: cache_swap_def split: if_splits)
      with IH [OF rec] Inr show ?thesis
        by (simp add: same_frame_def)
    qed
  qed
qed

section \<open>Delete\<close>

text \<open>In a max-heap the root is the greatest element of the valid prefix.\<close>

lemma heap_order_root_max:
  assumes ho: "heap_order h" and init: "initialised h" and k: "k < unat (h_size h)"
  shows "\<exists>r v. h_cache h ! 0 = Some r \<and> h_cache h ! k = Some v \<and> sint v \<le> sint r"
  using k
proof (induction k rule: less_induct)
  case (less k)
  let ?c = "h_cache h"
  from ho have len: "unat (h_size h) \<le> length ?c"
    by (simp add: heap_order_def)
  from init have none: "None \<notin> set (take (unat (h_size h)) ?c)"
    by (simp add: initialised_def valid_prefix_def)
  show ?case
  proof (cases "k = 0")
    case False
    then have "k \<in> set [1..<unat (h_size h)]"
      using less.prems by simp
    with ho have pk: "parent_ok ?c k"
      by (simp add: heap_order_def list_all_iff)
    then obtain p v where p: "?c ! ((k - 1) div 2) = Some p" and v: "?c ! k = Some v"
      and le: "sint v \<le> sint p"
      by (auto simp: parent_ok_def split: option.splits)
    have "(k - 1) div 2 < k"
      using False by simp
    moreover from this less.prems have "(k - 1) div 2 < unat (h_size h)"
      by simp
    ultimately obtain r where "?c ! 0 = Some r" and "sint p \<le> sint r"
      using less.IH [of "(k - 1) div 2"] p by auto
    with v le show ?thesis
      by auto
  next
    case True
    from prefix_val [OF none less.prems len] True show ?thesis
      by auto
  qed
qed

text \<open>
  C3, as amended. For every heap with \<open>_size > 0\<close> whose valid prefix is initialised
  and lies inside an array of fewer than \<open>2 ^ 63\<close> cells, \<^verbatim>\<open>Delete\<close> returns; it
  hands no value to the caller (it is declared \<^verbatim>\<open>void\<close>); \<open>_size\<close> decreases by
  exactly 1; the element that was at the root is removed from the valid prefix and
  nothing else is (as multisets); the array keeps its length and \<open>_capacity\<close> its
  value. When the heap order held before the call, the removed root was the maximum.
\<close>

theorem delete_removes_root:
  assumes nonempty: "h_size h \<noteq> 0"
    and inb: "unat (h_size h) \<le> length (h_cache h)"
    and len: "length (h_cache h) < 2 ^ 63"
    and init: "initialised h"
  shows "\<exists>h'. Delete h = Some (Inr (None, h'))
      \<and> unat (h_size h') = unat (h_size h) - 1
      \<and> h_cache h ! 0 \<in># mset (valid_prefix h)
      \<and> mset (valid_prefix h') = mset (valid_prefix h) - {#h_cache h ! 0#}
      \<and> length (h_cache h') = length (h_cache h)
      \<and> h_capacity h' = h_capacity h
      \<and> (heap_order h \<longrightarrow>
            (\<forall>v \<in> set (valid_prefix h). sint (the v) \<le> sint (the (h_cache h ! 0))))"
proof -
  let ?n = "unat (h_size h)"
  let ?c = "h_cache h"
  let ?c1 = "?c[0 := ?c ! (?n - 1), ?n - 1 := ?c ! 0]"
  let ?h1 = "h\<lparr>h_cache := ?c1, h_size := h_size h - 1\<rparr>"
  from nonempty have npos: "0 < ?n"
    by (simp add: unat_gt_0)
  from nonempty have um: "unat (h_size h - 1) = ?n - 1"
    by (simp add: unat_minus_one)
  from init have none: "None \<notin> set (take ?n ?c)"
    by (simp add: initialised_def valid_prefix_def)
  have sw: "cache_swap ?c 0 (h_size h - 1) = Inr ?c1"
    using npos inb um by (auto simp: cache_swap_def)
  have ms1: "mset (take ?n ?c1) = mset (take ?n ?c)"
    using swap_prefix(1) [of 0 ?n "?n - 1" ?c] npos inb by simp
  have last: "?c1 ! (?n - 1) = ?c ! 0"
    using npos inb by simp
  have "take (Suc (?n - 1)) ?c1 = take (?n - 1) ?c1 @ [?c1 ! (?n - 1)]"
    using npos inb by (intro take_Suc_conv_app_nth) simp
  then have split: "take ?n ?c1 = take (?n - 1) ?c1 @ [?c ! 0]"
    using npos last by simp
  have "mset (take ?n ?c1) = add_mset (?c ! 0) (mset (take (?n - 1) ?c1))"
    by (simp only: split mset_append mset.simps add_mset_add_single [symmetric] add.right_neutral)
  with ms1 have ms2: "mset (take ?n ?c) = add_mset (?c ! 0) (mset (take (?n - 1) ?c1))"
    by simp
  have none1: "None \<notin> set (take (unat (h_size ?h1)) (h_cache ?h1))"
  proof -
    have "set (take (?n - 1) ?c1) \<subseteq> set (take ?n ?c1)"
      by (rule set_take_subset_set_take) simp
    also have "\<dots> = set (take ?n ?c)"
      using ms1 by (metis set_mset_mset)
    finally show ?thesis
      using none um by auto
  qed
  have "unat (h_size ?h1) \<le> length (h_cache ?h1)"
    using um inb by simp
  moreover have "length (h_cache ?h1) < 2 ^ 63"
    using len by simp
  moreover have "unat (0 :: size_t) < 2 ^ 63 - 1"
    by simp
  ultimately obtain h' where
    pd: "PercolateDown ?h1 0 = Some (Inr h')" and
    f: "h_size h' = h_size ?h1" "h_capacity h' = h_capacity ?h1"
       "length (h_cache h') = length (h_cache ?h1)"
       "mset (take (unat (h_size ?h1)) (h_cache h')) = mset (take (unat (h_size ?h1)) (h_cache ?h1))"
    using PercolateDown_returns [of ?h1 0, OF _ _ none1] by blast
  have del: "Delete h = Some (Inr (None, h'))"
    using sw pd by (simp add: Delete_def)
  have sz: "unat (h_size h') = ?n - 1"
    using f(1) um by simp
  have root_in: "?c ! 0 \<in># mset (valid_prefix h)"
    using ms2 by (simp add: valid_prefix_def)
  have "mset (valid_prefix h') = mset (take (?n - 1) ?c1)"
    using f(1,4) um by (simp add: valid_prefix_def)
  then have removed: "mset (valid_prefix h') = mset (valid_prefix h) - {#?c ! 0#}"
    using ms2 by (simp add: valid_prefix_def)
  have maxi: "\<forall>v \<in> set (valid_prefix h). sint (the v) \<le> sint (the (?c ! 0))"
    if ho: "heap_order h"
  proof
    fix v
    assume "v \<in> set (valid_prefix h)"
    then obtain k where k: "k < ?n" and v: "v = ?c ! k"
      using inb by (auto simp: valid_prefix_def in_set_conv_nth)
    from heap_order_root_max [OF ho init k] v
    show "sint (the v) \<le> sint (the (?c ! 0))"
      by auto
  qed
  from del sz root_in removed f(2,3) maxi show ?thesis
    by auto
qed

theorem delete_removes_root_witness:
  "h_size three4 \<noteq> 0 \<and> unat (h_size three4) \<le> length (h_cache three4)
   \<and> length (h_cache three4) < 2 ^ 63 \<and> initialised three4 \<and> heap_order three4
   \<and> (\<exists>h'. Delete three4 = Some (Inr (None, h')) \<and> unat (h_size h') = 2
         \<and> mset (valid_prefix h') = {#Some 7, Some 5#})"
proof -
  have a: "h_size three4 \<noteq> 0" and b: "unat (h_size three4) \<le> length (h_cache three4)"
    and c: "length (h_cache three4) < 2 ^ 63"
    by (simp_all add: three4_def)
  have d: "initialised three4"
    by (simp add: initialised_def valid_prefix_def three4_def)
  have e: "heap_order three4"
    unfolding three4_def by code_simp
  have p: "mset (valid_prefix three4) - {#h_cache three4 ! 0#} = {#Some 7, Some 5#}"
    by (simp add: valid_prefix_def three4_def)
  have n: "unat (h_size three4) - 1 = 2"
    by (simp add: three4_def)
  from delete_removes_root [OF a b c d] show ?thesis
    using a b c d e unfolding p n by blast
qed

text \<open>
  The claim as stated fails: on the max-heap holding 10, 7 and 5 the call returns
  with no value, so the caller does not receive the root 10.
\<close>

theorem delete_returns_no_value:
  "h_size three4 \<noteq> 0 \<and> h_cache three4 ! 0 = Some 10
   \<and> Delete three4 = Some (Inr (None,
        \<lparr>h_cache = [Some 5, Some 7, Some 10, None, None], h_size = 2, h_capacity = 4\<rparr>))
   \<and> (\<nexists>h'. Delete three4 = Some (Inr (Some 10, h')))"
proof -
  have d: "Delete three4 = Some (Inr (None,
        \<lparr>h_cache = [Some 5, Some 7, Some 10, None, None], h_size = 2, h_capacity = 4\<rparr>))"
    unfolding three4_def by code_simp
  then have "\<nexists>h'. Delete three4 = Some (Inr (Some 10, h'))"
    by simp
  with d show ?thesis
    by (simp add: three4_def)
qed

section \<open>The heap order is not preserved\<close>

text \<open>
  C1. The claim is that the heap order holds after every \<^verbatim>\<open>Insert\<close> and
  \<^verbatim>\<open>Delete\<close>. The code breaks it both ways. \<^verbatim>\<open>Insert(8)\<close> into the heap that holds
  5 leaves 8 below the root 5: at index 1 the parent is 0, and the guard
  \<open>parent > 0\<close> of \<^verbatim>\<open>PercolateUp\<close> never swaps with the root. \<^verbatim>\<open>Delete\<close> on the
  max-heap 10, 7, 5 swaps 10 with 5 and stops, since \<^verbatim>\<open>PercolateDown\<close> does nothing
  unless both children are below \<open>_size\<close>: it leaves 5 above 7.
\<close>

theorem heap_order_broken:
  "heap_order one4
   \<and> Insert one4 8 = Inr \<lparr>h_cache = [Some 5, Some 8, None, None, None], h_size = 2, h_capacity = 4\<rparr>
   \<and> \<not> heap_order \<lparr>h_cache = [Some 5, Some 8, None, None, None], h_size = 2, h_capacity = 4\<rparr>
   \<and> heap_order three4
   \<and> Delete three4 = Some (Inr (None,
        \<lparr>h_cache = [Some 5, Some 7, Some 10, None, None], h_size = 2, h_capacity = 4\<rparr>))
   \<and> \<not> heap_order \<lparr>h_cache = [Some 5, Some 7, Some 10, None, None], h_size = 2, h_capacity = 4\<rparr>"
proof -
  have "heap_order one4"
    unfolding one4_def by code_simp
  moreover have "Insert one4 8
      = Inr \<lparr>h_cache = [Some 5, Some 8, None, None, None], h_size = 2, h_capacity = 4\<rparr>"
    unfolding one4_def by code_simp
  moreover have "\<not> heap_order \<lparr>h_cache = [Some 5, Some 8, None, None, None], h_size = 2, h_capacity = 4\<rparr>"
    by code_simp
  moreover have "heap_order three4"
    unfolding three4_def by code_simp
  moreover have "Delete three4 = Some (Inr (None,
        \<lparr>h_cache = [Some 5, Some 7, Some 10, None, None], h_size = 2, h_capacity = 4\<rparr>))"
    unfolding three4_def by code_simp
  moreover have "\<not> heap_order \<lparr>h_cache = [Some 5, Some 7, Some 10, None, None], h_size = 2, h_capacity = 4\<rparr>"
    by code_simp
  ultimately show ?thesis
    by blast
qed

section \<open>Sorted extraction\<close>

text \<open>
  C2. The claim is that inserting n elements into a fresh heap and deleting n times
  yields them in descending order. On the scenario \<^verbatim>\<open>New(4)\<close>, insert 5, 3, 8, 1:
  the first \<^verbatim>\<open>Insert\<close> already ends in the out-of-bounds read of \<^verbatim>\<open>PercolateUp(0)\<close>.
  Starting instead from the heap that holds 5, inserting 3 and 8 leaves 5 at the
  root, so the first \<^verbatim>\<open>Delete\<close> removes 5 and not the maximum 8, and the fourth
  insertion reads the released array in \<^verbatim>\<open>CacheResize\<close>.
\<close>

theorem sorted_extraction_fails:
  "MinHeap 4 = Inr fresh4
   \<and> InsertAll fresh4 [5, 3, 8, 1] = Inl OutOfBounds
   \<and> InsertAll one4 [3, 8]
       = Inr \<lparr>h_cache = [Some 5, Some 3, Some 8, None, None], h_size = 3, h_capacity = 4\<rparr>
   \<and> Delete \<lparr>h_cache = [Some 5, Some 3, Some 8, None, None], h_size = 3, h_capacity = 4\<rparr>
       = Some (Inr (None,
           \<lparr>h_cache = [Some 8, Some 3, Some 5, None, None], h_size = 2, h_capacity = 4\<rparr>))
   \<and> InsertAll one4 [3, 8, 1] = Inl UseAfterFree"
proof -
  have "replicate 5 (None :: cell) = [None, None, None, None, None]"
    by (simp add: eval_nat_numeral)
  then have a: "MinHeap 4 = Inr fresh4"
    by (simp add: MinHeap_def new_array_def max_cells_def fresh4_def)
  have "Insert fresh4 5 = Inl OutOfBounds"
    by (simp add: Insert_def fresh4_def cache_set_def PercolateUp_0)
  then have b: "InsertAll fresh4 [5, 3, 8, 1] = Inl OutOfBounds"
    by simp
  have c: "InsertAll one4 [3, 8]
       = Inr \<lparr>h_cache = [Some 5, Some 3, Some 8, None, None], h_size = 3, h_capacity = 4\<rparr>"
    unfolding one4_def by code_simp
  have d: "Delete \<lparr>h_cache = [Some 5, Some 3, Some 8, None, None], h_size = 3, h_capacity = 4\<rparr>
       = Some (Inr (None,
           \<lparr>h_cache = [Some 8, Some 3, Some 5, None, None], h_size = 2, h_capacity = 4\<rparr>))"
    by code_simp
  have "Insert \<lparr>h_cache = [Some 5, Some 3, Some 8, None, None], h_size = 3, h_capacity = 4\<rparr> 1
      = Inl UseAfterFree"
    by (simp add: Insert_def CacheResize_def new_array_def max_cells_def delete_block_def
        CacheResize_copy_freed)
  then have "InsertAll \<lparr>h_cache = [Some 5, Some 3, Some 8, None, None], h_size = 3, h_capacity = 4\<rparr> [1]
      = Inl UseAfterFree"
    by simp
  moreover have "InsertAll one4 [3, 8, 1]
      = (case InsertAll one4 [3, 8] of Inl e \<Rightarrow> Inl e | Inr h \<Rightarrow> InsertAll h [1])"
    by (simp split: sum.splits)
  ultimately have e: "InsertAll one4 [3, 8, 1] = Inl UseAfterFree"
    using c by simp
  from a b c d e show ?thesis
    by blast
qed

section \<open>Growth of the storage\<close>

text \<open>
  C5. The claim is that growth doubles the capacity and keeps every element in
  place. On the heap of capacity 3 that holds 5 and 3, \<^verbatim>\<open>Insert(8)\<close> makes
  \<open>_size = _capacity\<close> and calls \<^verbatim>\<open>CacheResize(6)\<close>, which releases the old array
  and then reads it: the call ends in a use after free. Even on an old array that
  was still live, the copy loop starts at index 1: the new array would hold 3 at
  index 1 and nothing at index 0, so the root 5 is lost.
\<close>

theorem resize_loses_elements:
  "h_size full3 + 1 = h_capacity full3
   \<and> Insert full3 8 = Inl UseAfterFree
   \<and> new_array (h_capacity full3 * 2) = Inr [None, None, None, None, None, None]
   \<and> CacheResize_copy (Live (h_cache full3)) [None, None, None, None, None, None] 1 3
       = Inr [None, Some 3, None, None, None, None]"
proof -
  have a: "h_size full3 + 1 = h_capacity full3"
    by (simp add: full3_def)
  have b: "Insert full3 8 = Inl UseAfterFree"
    by (simp add: full3_def Insert_def CacheResize_def new_array_def max_cells_def
        delete_block_def CacheResize_copy_freed)
  have "replicate 6 (None :: cell) = [None, None, None, None, None, None]"
    by (simp add: eval_nat_numeral)
  then have c: "new_array (h_capacity full3 * 2) = Inr [None, None, None, None, None, None]"
    by (simp add: full3_def new_array_def max_cells_def)
  have d: "CacheResize_copy (Live (h_cache full3)) [None, None, None, None, None, None] 1 3
       = Inr [None, Some 3, None, None, None, None]"
    unfolding full3_def by code_simp
  from a b c d show ?thesis
    by blast
qed

section \<open>Delete on an empty heap\<close>

lemma unat_minus_1_size_t: "unat (- 1 :: size_t) = 2 ^ 64 - 1"
  by (simp add: unsigned_minus_1_eq_mask mask_eq_exp_minus_1)

text \<open>
  C4, as amended. \<^verbatim>\<open>Delete\<close> has no emptiness check and no \<open>EmptyHeap\<close> failure.
  With \<open>_size = 0\<close> its first step addresses \<^verbatim>\<open>_cache[_size - 1]\<close>, and \<open>0 - 1\<close> is
  \<open>2 ^ 64 - 1\<close> in \<^verbatim>\<open>size_t\<close>: an index outside every array. The call is outside
  the domain of the operation; it does not fail with \<open>EmptyHeap\<close> and yields no heap.
\<close>

theorem delete_on_empty:
  assumes empty: "h_size h = 0" and len: "length (h_cache h) < 2 ^ 64"
  shows "unat (h_size h - 1) = 2 ^ 64 - 1
    \<and> cache_get (h_cache h) (h_size h - 1) = Inl OutOfBounds
    \<and> Delete h = Some (Inl OutOfBounds)
    \<and> Delete h \<noteq> Some (Inl EmptyHeap)"
proof -
  have u: "unat (h_size h - 1) = 2 ^ 64 - 1"
    using empty by (simp add: unat_minus_1_size_t)
  then have far: "\<not> unat (h_size h - 1) < length (h_cache h)"
    using len by simp
  then have g: "cache_get (h_cache h) (h_size h - 1) = Inl OutOfBounds"
    by (simp add: cache_get_def)
  from far have "cache_swap (h_cache h) 0 (h_size h - 1) = Inl OutOfBounds"
    by (simp add: cache_swap_def)
  then have d: "Delete h = Some (Inl OutOfBounds)"
    by (simp add: Delete_def)
  from u g d show ?thesis
    by simp
qed

theorem delete_on_empty_witness:
  "h_size fresh4 = 0 \<and> length (h_cache fresh4) < 2 ^ 64
   \<and> Delete fresh4 = Some (Inl OutOfBounds)"
proof -
  have a: "h_size fresh4 = 0" and b: "length (h_cache fresh4) < 2 ^ 64"
    by (simp_all add: fresh4_def)
  from delete_on_empty [OF a b] a b show ?thesis
    by simp
qed

text \<open>The claim as stated fails on the freshly constructed heap.\<close>

theorem delete_on_empty_not_EmptyHeap:
  "h_size fresh4 = 0 \<and> Delete fresh4 \<noteq> Some (Inl EmptyHeap)"
  by (simp add: fresh4_def Delete_def cache_swap_def unat_minus_1_size_t)

section \<open>Construction\<close>

text \<open>
  C6, as amended. The constructor validates nothing and never fails with
  \<open>InvalidArgument\<close>: its parameter is a \<^verbatim>\<open>size_t\<close>, so no negative capacity reaches
  it, and capacity 0 is accepted. It allocates \<open>capacity + 1\<close> cells (in \<^verbatim>\<open>size_t\<close>
  arithmetic) and fails only when that allocation does. Every heap it builds has
  \<open>_size = 0\<close>, \<open>_capacity\<close> equal to the argument, and a backing array of
  \<open>capacity + 1\<close> cells, which is at least one cell unless \<open>capacity + 1\<close> wraps to 0.
\<close>

theorem constructor_accepts_every_capacity:
  "MinHeap c \<noteq> Inl InvalidArgument
   \<and> (unat (c + 1) \<le> max_cells \<longrightarrow>
        MinHeap c = Inr \<lparr>h_cache = replicate (unat (c + 1)) None, h_size = 0, h_capacity = c\<rparr>)
   \<and> (max_cells < unat (c + 1) \<longrightarrow> MinHeap c = Inl AllocationFailure)
   \<and> (MinHeap c = Inr h \<longrightarrow>
        h_size h = 0 \<and> h_capacity h = c \<and> length (h_cache h) = unat (c + 1)
        \<and> (c \<noteq> - 1 \<longrightarrow> 1 \<le> length (h_cache h)))"
proof -
  have nz: "unat (c + 1) \<noteq> 0" if "c \<noteq> - 1"
  proof
    assume "unat (c + 1) = 0"
    then have "c + 1 = 0"
      by (simp add: unat_eq_zero)
    then have "c = - 1"
      by (simp add: eq_neg_iff_add_eq_0)
    with that show False
      by simp
  qed
  show ?thesis
    using nz by (auto simp: MinHeap_def new_array_def split: if_splits)
qed

theorem constructor_accepts_every_capacity_witness:
  "unat ((4 :: size_t) + 1) \<le> max_cells \<and> MinHeap 4 = Inr fresh4
   \<and> (4 :: size_t) \<noteq> - 1 \<and> 1 \<le> length (h_cache fresh4)
   \<and> max_cells < unat ((2 ^ 62 :: size_t) + 1) \<and> MinHeap (2 ^ 62) = Inl AllocationFailure"
proof -
  have a: "unat ((4 :: size_t) + 1) \<le> max_cells"
    by (simp add: max_cells_def)
  have b: "max_cells < unat ((2 ^ 62 :: size_t) + 1)"
    by (simp add: max_cells_def)
  have r: "replicate 5 (None :: cell) = [None, None, None, None, None]"
    by (simp add: eval_nat_numeral)
  from constructor_accepts_every_capacity [of 4 fresh4] a
  have c: "MinHeap 4 = Inr fresh4"
    by (simp add: fresh4_def r)
  from constructor_accepts_every_capacity [of "2 ^ 62" fresh4] b
  have d: "MinHeap (2 ^ 62) = Inl AllocationFailure"
    by blast
  from a b c d show ?thesis
    by (simp add: fresh4_def)
qed

text \<open>
  The claim as stated fails at capacity 0: construction succeeds, and the heap's
  \<open>_capacity\<close> is 0.
\<close>

theorem constructor_zero_capacity:
  "MinHeap 0 = Inr \<lparr>h_cache = [None], h_size = 0, h_capacity = 0\<rparr>
   \<and> MinHeap 0 \<noteq> Inl InvalidArgument
   \<and> \<not> 1 \<le> h_capacity \<lparr>h_cache = [None], h_size = 0, h_capacity = 0\<rparr>"
  by (simp add: MinHeap_def new_array_def max_cells_def)

section \<open>Size accounting\<close>

lemma PercolateUp_same_frame:
  "PercolateUp h i = y \<Longrightarrow> same_frame h y"
proof (induction h i arbitrary: y rule: PercolateUp.induct)
  case (1 h index)
  show ?case
  proof (cases y)
    case (Inl e)
    then show ?thesis
      by (simp add: same_frame_def)
  next
    case (Inr h')
    with "1.prems" have ret: "PercolateUp h index = Inr h'"
      by simp
    show ?thesis
    proof (cases "0 < GetParentNode index")
      case False
      with ret Inr show ?thesis
        by (simp add: PercolateUp.simps [of h index] same_frame_def)
    next
      case True
      from ret True obtain p v where
        p: "cache_val (h_cache h) (GetParentNode index) = Inr p" and
        v: "cache_val (h_cache h) index = Inr v"
        by (auto simp: PercolateUp.simps [of h index] Let_def split: sum.splits)
      show ?thesis
      proof (cases "sint p < sint v")
        case False
        with ret True p v Inr show ?thesis
          by (simp add: PercolateUp.simps [of h index] Let_def same_frame_def)
      next
        case less: True
        with ret True p v obtain c where
          c: "cache_swap (h_cache h) (GetParentNode index) index = Inr c" and
          rec: "PercolateUp (h\<lparr>h_cache := c\<rparr>) (GetParentNode index) = Inr h'"
          by (auto simp: PercolateUp.simps [of h index] Let_def split: sum.splits)
        from c have "length c = length (h_cache h)"
          by (auto simp: cache_swap_def split: if_splits)
        with "1.IH" [OF refl True p v less c rec] Inr show ?thesis
          by (simp add: same_frame_def)
      qed
    qed
  qed
qed

lemma CacheResize_copy_length:
  "CacheResize_copy temp c i cap = Inr c' \<Longrightarrow> length c' = length c"
proof (induction temp c i cap rule: CacheResize_copy.induct)
  case (1 temp c i cap)
  show ?case
  proof (cases "i < cap")
    case False
    with "1.prems" show ?thesis
      by (simp add: CacheResize_copy.simps [of temp c i cap])
  next
    case True
    with "1.prems" obtain v c1 where
      v: "block_get temp i = Inr v" and
      s: "cache_set c i v = Inr c1" and
      rec: "CacheResize_copy temp c1 (i + 1) cap = Inr c'"
      by (auto simp: CacheResize_copy.simps [of temp c i cap] split: sum.splits)
    from s have "length c1 = length c"
      by (auto simp: cache_set_def split: if_splits)
    with "1.IH" [OF True v s rec] show ?thesis
      by simp
  qed
qed

lemma Insert_size:
  assumes ret: "Insert h x = Inr h'" and len: "length (h_cache h) < 2 ^ 64"
  shows "h_size h' = h_size h + 1" and "unat (h_size h') = unat (h_size h) + 1"
proof -
  let ?h1 = "h\<lparr>h_size := h_size h + 1\<rparr>"
  from ret obtain h2 c where
    h2: "(if h_size ?h1 = h_capacity ?h1 then CacheResize ?h1 (h_capacity ?h1 * 2) else Inr ?h1) = Inr h2"
    and c: "cache_set (h_cache h2) (h_size h2 - 1) (Some x) = Inr c"
    and up: "PercolateUp (h2\<lparr>h_cache := c\<rparr>) (h_size h2 - 1) = Inr h'"
    by (auto simp: Insert_def Let_def split: sum.splits)
  have sz2: "h_size h2 = h_size h + 1" and len2: "length (h_cache h2) < 2 ^ 64"
  proof -
    show "h_size h2 = h_size h + 1"
      using h2 by (auto simp: CacheResize_def Let_def split: if_splits sum.splits)
    show "length (h_cache h2) < 2 ^ 64"
    proof (cases "h_size ?h1 = h_capacity ?h1")
      case False
      with h2 len show ?thesis
        by auto
    next
      case True
      with h2 obtain c0 c1 where
        na: "new_array (h_capacity ?h1 * 2) = Inr c0" and
        cp: "CacheResize_copy (delete_block (Live (h_cache ?h1))) c0 1 (h_capacity ?h1) = Inr c1" and
        eq: "h_cache h2 = c1"
        by (auto simp: CacheResize_def Let_def split: sum.splits)
      from na have "length c0 = unat (h_capacity ?h1 * 2)"
        by (auto simp: new_array_def split: if_splits)
      with CacheResize_copy_length [OF cp] eq
      have "length (h_cache h2) = unat (h_capacity ?h1 * 2)"
        by simp
      then show ?thesis
        using unsigned_less [of "h_capacity ?h1 * 2"] by simp
    qed
  qed
  from PercolateUp_same_frame [OF up] have "h_size h' = h_size h2"
    by (simp add: same_frame_def)
  with sz2 show w: "h_size h' = h_size h + 1"
    by simp
  from c sz2 have "unat (h_size h) < length (h_cache h2)"
    by (auto simp: cache_set_def split: if_splits)
  with len2 have "unat (h_size h) + 1 < 2 ^ 64"
    by simp
  then show "unat (h_size h') = unat (h_size h) + 1"
    using w by (simp add: unat_word_ariths)
qed

lemma map_sum_Pair_None:
  "map_sum id (Pair None) z = Inr (v, h') \<longleftrightarrow> v = None \<and> z = Inr h'"
  by (cases z) auto

lemma Delete_size:
  assumes ret: "Delete h = Some (Inr (v, h'))" and len: "length (h_cache h) < 2 ^ 64"
  shows "v = None" and "0 < unat (h_size h)" and "unat (h_size h') = unat (h_size h) - 1"
proof -
  from ret obtain c h'' where
    sw: "cache_swap (h_cache h) 0 (h_size h - 1) = Inr c" and
    pd: "PercolateDown (h\<lparr>h_cache := c, h_size := h_size h - 1\<rparr>) 0 = Some (Inr h'')" and
    eq: "(v, h') = (None, h'')"
    by (auto simp: Delete_def map_sum_Pair_None split: sum.splits)
  from eq show "v = None"
    by simp
  from sw have inb: "unat (h_size h - 1) < length (h_cache h)"
    by (auto simp: cache_swap_def split: if_splits)
  have nz: "h_size h \<noteq> 0"
  proof
    assume "h_size h = 0"
    then have "unat (h_size h - 1) = 2 ^ 64 - 1"
      by (simp add: unsigned_minus_1_eq_mask mask_eq_exp_minus_1)
    with inb len show False
      by simp
  qed
  then show "0 < unat (h_size h)"
    by (simp add: unat_gt_0)
  from PercolateDown_frame [OF pd] eq have "h_size h' = h_size h - 1"
    by (simp add: same_frame_def)
  then show "unat (h_size h') = unat (h_size h) - 1"
    using nz by (simp add: unat_minus_one)
qed

text \<open>
  \<^verbatim>\<open>Print\<close> writes one line for each index from \<open>i\<close> up to \<open>_size\<close>, in order,
  with the value of the cell at that index.
\<close>

lemma Print_loop_result:
  "Print_loop h i out = Inr r \<Longrightarrow>
     map fst r = map fst out @ map of_nat [unat i..<unat (h_size h)]
     \<and> map (Some \<circ> snd) r
         = map (Some \<circ> snd) out @ map (nth (h_cache h)) [unat i..<unat (h_size h)]"
proof (induction h i out rule: Print_loop.induct)
  case (1 h i out)
  show ?case
  proof (cases "i < h_size h")
    case False
    then have "unat (h_size h) \<le> unat i"
      by (simp add: word_less_nat_alt)
    with "1.prems" False show ?thesis
      by (simp add: Print_loop.simps [of h i out])
  next
    case True
    then have lt: "unat i < unat (h_size h)"
      by (simp add: word_less_nat_alt)
    from "1.prems" True obtain v where
      v: "cache_val (h_cache h) i = Inr v" and
      rec: "Print_loop h (i + 1) (out @ [(i, v)]) = Inr r"
      by (auto simp: Print_loop.simps [of h i out] split: sum.splits)
    from v have cell: "h_cache h ! unat i = Some v"
      by (auto simp: cache_val_def cache_get_def split: if_splits option.splits)
    have "[unat i..<unat (h_size h)] = unat i # [unat (i + 1)..<unat (h_size h)]"
      using lt unat_Suc_less [OF True] by (simp add: upt_conv_Cons)
    with "1.IH" [OF True v rec] cell show ?thesis
      by simp
  qed
qed

lemma Print_loop_bound:
  "Print_loop h i out = Inr r \<Longrightarrow> unat i \<le> length (h_cache h) \<Longrightarrow>
     unat (h_size h) \<le> length (h_cache h)"
proof (induction h i out rule: Print_loop.induct)
  case (1 h i out)
  show ?case
  proof (cases "i < h_size h")
    case False
    then have "unat (h_size h) \<le> unat i"
      by (simp add: word_less_nat_alt)
    with "1.prems" show ?thesis
      by simp
  next
    case True
    from "1.prems" True obtain v where
      v: "cache_val (h_cache h) i = Inr v" and
      rec: "Print_loop h (i + 1) (out @ [(i, v)]) = Inr r"
      by (auto simp: Print_loop.simps [of h i out] split: sum.splits)
    from v have "unat i < length (h_cache h)"
      by (auto simp: cache_val_def cache_get_def split: if_splits)
    then have "unat (i + 1) \<le> length (h_cache h)"
      using unat_Suc_less [OF True] by simp
    with "1.IH" [OF True v rec] show ?thesis
      by simp
  qed
qed

lemma Print_loop_returns:
  "unat (h_size h) \<le> length (h_cache h) \<Longrightarrow>
   None \<notin> set (take (unat (h_size h)) (h_cache h)) \<Longrightarrow>
     \<exists>r. Print_loop h i out = Inr r"
proof (induction h i out rule: Print_loop.induct)
  case (1 h i out)
  show ?case
  proof (cases "i < h_size h")
    case False
    then show ?thesis
      by (simp add: Print_loop.simps [of h i out])
  next
    case True
    then have "unat i < unat (h_size h)"
      by (simp add: word_less_nat_alt)
    with "1.prems" obtain v where v: "cache_val (h_cache h) i = Inr v"
      using cache_val_prefix [of "unat (h_size h)" "h_cache h" i] by auto
    from "1.IH" [OF True v "1.prems"] True v show ?thesis
      by (simp add: Print_loop.simps [of h i out])
  qed
qed

text \<open>
  C7. \<open>_size\<close> is 0 after construction; an \<^verbatim>\<open>Insert\<close> that returns has increased it
  by exactly 1; a \<^verbatim>\<open>Delete\<close> that returns has decreased it by exactly 1 (and it was
  positive); \<^verbatim>\<open>Print\<close>, when it returns, has written exactly \<open>_size\<close> lines, the
  indices \<open>0, 1, ...\<close> with the cells of the valid prefix in array order, and it
  does return whenever the valid prefix is inside the array and initialised. The
  arrays are those that can exist: fewer than \<open>2 ^ 64\<close> cells.
\<close>

theorem size_accounting:
  "(MinHeap c = Inr h0 \<longrightarrow> h_size h0 = 0)
   \<and> (Insert h_ins x = Inr h_ins' \<and> length (h_cache h_ins) < 2 ^ 64 \<longrightarrow>
         unat (h_size h_ins') = unat (h_size h_ins) + 1)
   \<and> (Delete h_del = Some (Inr (v, h_del')) \<and> length (h_cache h_del) < 2 ^ 64 \<longrightarrow>
         0 < unat (h_size h_del) \<and> unat (h_size h_del') = unat (h_size h_del) - 1)
   \<and> (Print h_prt = Inr out \<longrightarrow>
         length out = unat (h_size h_prt)
         \<and> map fst out = map of_nat [0..<unat (h_size h_prt)]
         \<and> map (Some \<circ> snd) out = valid_prefix h_prt)
   \<and> (unat (h_size h_prt) \<le> length (h_cache h_prt) \<and> initialised h_prt \<longrightarrow>
         (\<exists>out. Print h_prt = Inr out))"
proof -
  have a: "MinHeap c = Inr h0 \<longrightarrow> h_size h0 = 0"
    by (auto simp: MinHeap_def split: sum.splits)
  have b: "Insert h_ins x = Inr h_ins' \<and> length (h_cache h_ins) < 2 ^ 64 \<longrightarrow>
         unat (h_size h_ins') = unat (h_size h_ins) + 1"
    using Insert_size(2) by blast
  have d: "Delete h_del = Some (Inr (v, h_del')) \<and> length (h_cache h_del) < 2 ^ 64 \<longrightarrow>
         0 < unat (h_size h_del) \<and> unat (h_size h_del') = unat (h_size h_del) - 1"
    using Delete_size(2,3) by blast
  have p: "length out = unat (h_size h_prt)
         \<and> map fst out = map of_nat [0..<unat (h_size h_prt)]
         \<and> map (Some \<circ> snd) out = valid_prefix h_prt"
    if ret: "Print h_prt = Inr out"
  proof -
    let ?n = "unat (h_size h_prt)"
    let ?c = "h_cache h_prt"
    from ret have r: "map fst out = map of_nat [0..<?n]"
      and vs: "map (Some \<circ> snd) out = map (nth ?c) [0..<?n]"
      using Print_loop_result [of h_prt 0 "[]" out] by (simp_all add: Print_def)
    from ret have n: "?n \<le> length ?c"
      using Print_loop_bound [of h_prt 0 "[]" out] by (simp add: Print_def)
    have "map (nth ?c) [0..<?n] = take ?n ?c"
      using n by (intro nth_equalityI) simp_all
    with vs have vals: "map (Some \<circ> snd) out = valid_prefix h_prt"
      by (simp add: valid_prefix_def)
    from r have "length (map fst out) = ?n"
      by simp
    then have "length out = ?n"
      by simp
    with r vals show ?thesis
      by simp
  qed
  have t: "unat (h_size h_prt) \<le> length (h_cache h_prt) \<and> initialised h_prt \<longrightarrow>
         (\<exists>out. Print h_prt = Inr out)"
    using Print_loop_returns [of h_prt 0 "[]"]
    by (simp add: Print_def initialised_def valid_prefix_def)
  from a b d p t show ?thesis
    by blast
qed

theorem size_accounting_witness:
  "MinHeap 4 = Inr fresh4 \<and> h_size fresh4 = 0
   \<and> Insert one4 8 = Inr \<lparr>h_cache = [Some 5, Some 8, None, None, None], h_size = 2, h_capacity = 4\<rparr>
   \<and> h_size one4 = 1
   \<and> Delete three4 = Some (Inr (None,
        \<lparr>h_cache = [Some 5, Some 7, Some 10, None, None], h_size = 2, h_capacity = 4\<rparr>))
   \<and> h_size three4 = 3
   \<and> unat (h_size three4) \<le> length (h_cache three4) \<and> initialised three4
   \<and> Print three4 = Inr [(0, 10), (1, 7), (2, 5)]"
proof -
  have "replicate 5 (None :: cell) = [None, None, None, None, None]"
    by (simp add: eval_nat_numeral)
  then have a: "MinHeap 4 = Inr fresh4"
    by (simp add: MinHeap_def new_array_def max_cells_def fresh4_def)
  have b: "Insert one4 8
      = Inr \<lparr>h_cache = [Some 5, Some 8, None, None, None], h_size = 2, h_capacity = 4\<rparr>"
    unfolding one4_def by code_simp
  have c: "Delete three4 = Some (Inr (None,
        \<lparr>h_cache = [Some 5, Some 7, Some 10, None, None], h_size = 2, h_capacity = 4\<rparr>))"
    unfolding three4_def by code_simp
  have d: "Print three4 = Inr [(0, 10), (1, 7), (2, 5)]"
    unfolding three4_def by code_simp
  have e: "unat (h_size three4) \<le> length (h_cache three4)" and f: "initialised three4"
    by (simp_all add: three4_def initialised_def valid_prefix_def)
  have l1: "length (h_cache one4) < 2 ^ 64" and l3: "length (h_cache three4) < 2 ^ 64"
    by (simp_all add: one4_def three4_def)
  from size_accounting [where c = 4 and ?h0.0 = fresh4 and h_ins = one4 and x = 8
      and h_ins' = "\<lparr>h_cache = [Some 5, Some 8, None, None, None], h_size = 2, h_capacity = 4\<rparr>"
      and h_del = three4 and v = None
      and h_del' = "\<lparr>h_cache = [Some 5, Some 7, Some 10, None, None], h_size = 2, h_capacity = 4\<rparr>"
      and h_prt = three4 and out = "[(0, 10), (1, 7), (2, 5)]"]
    a b c d e f l1 l3
  show ?thesis
    by (simp add: one4_def three4_def fresh4_def)
qed

end
